theory Spec2Isabelle
  imports Main "HOL-Library.Multiset" "HOL-Library.Sublist"
begin

section \<open>Messages, channels and clients\<close>

text \<open>
  The chat server keeps all membership state in one \<open>Hub\<close> goroutine. A \<open>*Client\<close> is
  an address; the \<open>Client\<close> struct behind it holds the buffered channel \<open>send\<close> and the
  two fields \<open>room\<close> and \<open>username\<close>, which are written once when the struct is built.
  A serialized message is a byte string.
\<close>

type_synonym bytes = string
type_synonym cref = nat

record Message =
  Type :: string
  Content :: string
  RoomName :: string
  Username :: string

text \<open>
  A Go channel of byte slices: the buffered values in arrival order, the capacity given
  to \<open>make\<close>, and whether \<open>close\<close> has been called.
\<close>

record chan =
  buf :: "bytes list"
  capacity :: nat
  is_closed :: bool

definition make_chan :: "nat \<Rightarrow> chan" where
  "make_chan n = \<lparr>buf = [], capacity = n, is_closed = False\<rparr>"

text \<open>
  \<open>select { case ch <- v: ... default: ... }\<close>: the send is taken when the buffer has
  room, the default branch otherwise; a send on a closed channel panics.
\<close>

datatype send_outcome = Sent chan | Default | SendPanic

definition select_send :: "chan \<Rightarrow> bytes \<Rightarrow> send_outcome" where
  "select_send ch v =
     (if is_closed ch then SendPanic
      else if length (buf ch) < capacity ch then Sent (ch\<lparr>buf := buf ch @ [v]\<rparr>)
      else Default)"

text \<open>\<open>close(ch)\<close> panics on a channel that is already closed.\<close>

definition close_chan :: "chan \<Rightarrow> chan option" where
  "close_chan ch = (if is_closed ch then None else Some (ch\<lparr>is_closed := True\<rparr>))"

record Client =
  send :: chan
  room :: string
  username :: string

section \<open>The hub and the store of clients\<close>

text \<open>
  \<open>clients\<close> and \<open>rooms\<close> are the two maps of the \<open>Hub\<close> struct (a \<open>map[*Client]bool\<close>
  whose values are always \<open>true\<close> is a set). \<open>heap\<close> is the store the client addresses
  point into, \<open>logs\<close> collects the lines written with \<open>log.Printf\<close>, and \<open>allocd\<close> is the
  set of addresses \<open>HandleWebSocket\<close> has handed out so far. The three channels of the
  struct are unbuffered; what arrives on them is the argument of the handler that
  \<open>Run\<close> calls.
\<close>

record state =
  clients :: "cref set"
  rooms :: "string \<rightharpoonup> cref set"
  heap :: "cref \<Rightarrow> Client"
  logs :: "string list"
  allocd :: "cref set"

definition zeroClient :: Client where
  "zeroClient = \<lparr>send = make_chan 0, room = [], username = []\<rparr>"

definition NewHub :: state where
  "NewHub = \<lparr>clients = {}, rooms = Map.empty, heap = (\<lambda>_. zeroClient), logs = [], allocd = {}\<rparr>"

text \<open>The members of a room; a room without an entry has none.\<close>

definition members :: "state \<Rightarrow> string \<Rightarrow> cref set" where
  "members s r = (case rooms s r of None \<Rightarrow> {} | Some roomClients \<Rightarrow> roomClients)"

text \<open>
  \<open>json.Marshal\<close> belongs to the standard library: the handlers take the encoder as a
  parameter that returns the error text or the bytes.
\<close>

type_synonym marshal = "Message \<Rightarrow> string + bytes"

text \<open>
  Go does not fix the order in which \<open>range\<close> visits the keys of a map. Every \<open>range\<close>
  statement of the hub gets its order from a parameter of this type, which is asked to
  enumerate the key set once and without repetition.
\<close>

type_synonym ranging = "cref set \<Rightarrow> cref list"

definition range_ok :: "ranging \<Rightarrow> bool" where
  "range_ok it \<longleftrightarrow> (\<forall>S. finite S \<longrightarrow> set (it S) = S \<and> distinct (it S))"

text \<open>\<open>strings.Join\<close>.\<close>

fun Join :: "string list \<Rightarrow> string \<Rightarrow> string" where
  "Join [] sep = []"
| "Join [x] sep = x"
| "Join (x # y # ys) sep = x @ sep @ Join (y # ys) sep"

section \<open>handleBroadcast\<close>

text \<open>
  \<open>delete(h.rooms[name], client)\<close>: deleting from the nil map of a missing room does
  nothing.
\<close>

definition room_delete :: "string \<Rightarrow> cref \<Rightarrow> (string \<rightharpoonup> cref set) \<Rightarrow> (string \<rightharpoonup> cref set)" where
  "room_delete name client rs =
     (case rs name of None \<Rightarrow> rs | Some roomClients \<Rightarrow> rs(name \<mapsto> roomClients - {client}))"

text \<open>
  The body of the loop over the room's clients, for the clients still to visit. The only
  key the body deletes from the ranged map is the one being visited, so the keys visited
  are those the map had when the loop began. \<open>None\<close> is a panic of the Go runtime.
\<close>

fun send_loop :: "bytes \<Rightarrow> string \<Rightarrow> cref list \<Rightarrow> state \<Rightarrow> state option" where
  "send_loop jsonMsg name [] s = Some s"
| "send_loop jsonMsg name (client # rest) s =
     (case select_send (send (heap s client)) jsonMsg of
        SendPanic \<Rightarrow> None
      | Sent ch \<Rightarrow>
          send_loop jsonMsg name rest
            (s\<lparr>heap := (heap s)(client := (heap s client)\<lparr>send := ch\<rparr>)\<rparr>)
      | Default \<Rightarrow>
          (case close_chan (send (heap s client)) of
             None \<Rightarrow> None
           | Some ch \<Rightarrow>
               send_loop jsonMsg name rest
                 (s\<lparr>heap := (heap s)(client := (heap s client)\<lparr>send := ch\<rparr>),
                    clients := clients s - {client},
                    rooms := room_delete name client (rooms s)\<rparr>)))"

definition handleBroadcast :: "marshal \<Rightarrow> ranging \<Rightarrow> Message \<Rightarrow> state \<Rightarrow> state option" where
  "handleBroadcast mar it msg s =
     (case mar msg of
        Inl err \<Rightarrow> Some (s\<lparr>logs := logs s @ [''Error marshaling message: '' @ err]\<rparr>)
      | Inr jsonMsg \<Rightarrow>
          (case rooms s (RoomName msg) of
             None \<Rightarrow> Some s
           | Some roomClients \<Rightarrow> send_loop jsonMsg (RoomName msg) (it roomClients) s))"

section \<open>broadcastRoomUsers, handleRegister, handleUnregister\<close>

definition roomUsers :: "ranging \<Rightarrow> string \<Rightarrow> state \<Rightarrow> string list" where
  "roomUsers it name s =
     (case rooms s name of
        None \<Rightarrow> []
      | Some roomClients \<Rightarrow> map (\<lambda>client. username (heap s client)) (it roomClients))"

definition onlineUsersMessage :: "ranging \<Rightarrow> string \<Rightarrow> state \<Rightarrow> Message" where
  "onlineUsersMessage it name s =
     \<lparr>Type = ''online_users'', Content = Join (roomUsers it name s) '','',
      RoomName = name, Username = []\<rparr>"

definition broadcastRoomUsers :: "marshal \<Rightarrow> ranging \<Rightarrow> ranging \<Rightarrow> string \<Rightarrow> state \<Rightarrow> state option" where
  "broadcastRoomUsers mar it_users it_send name s =
     handleBroadcast mar it_send (onlineUsersMessage it_users name s) s"

definition handleRegister :: "marshal \<Rightarrow> ranging \<Rightarrow> ranging \<Rightarrow> cref \<Rightarrow> state \<Rightarrow> state option" where
  "handleRegister mar it_users it_send client s =
     (let name = room (heap s client);
          rs = (if rooms s name = None then (rooms s)(name \<mapsto> {}) else rooms s);
          rs' = (case rs name of
                   None \<Rightarrow> rs
                 | Some roomClients \<Rightarrow> rs(name \<mapsto> insert client roomClients))
      in broadcastRoomUsers mar it_users it_send name
           (s\<lparr>rooms := rs', clients := insert client (clients s)\<rparr>))"

definition userLeftMessage :: "Client \<Rightarrow> Message" where
  "userLeftMessage c =
     \<lparr>Type = ''user_left'', Content = username c @ '' left the room'',
      RoomName = room c, Username = username c\<rparr>"

text \<open>
  \<open>len(h.rooms[name]) == 0\<close>: a Go map is finite, so its length is zero exactly when it
  has no key, and the nil map of a missing room has length zero.
\<close>

definition room_len_zero :: "(string \<rightharpoonup> cref set) \<Rightarrow> string \<Rightarrow> bool" where
  "room_len_zero rs name = (case rs name of None \<Rightarrow> True | Some roomClients \<Rightarrow> roomClients = {})"

definition handleUnregister ::
  "marshal \<Rightarrow> ranging \<Rightarrow> ranging \<Rightarrow> ranging \<Rightarrow> cref \<Rightarrow> state \<Rightarrow> state option" where
  "handleUnregister mar it_left it_users it_send client s =
     (if client \<notin> clients s then Some s
      else
        let c = heap s client;
            s1 = s\<lparr>clients := clients s - {client},
                   rooms := room_delete (room c) client (rooms s)\<rparr>
        in case handleBroadcast mar it_left (userLeftMessage c) s1 of
             None \<Rightarrow> None
           | Some s2 \<Rightarrow>
               (case broadcastRoomUsers mar it_users it_send (room c) s2 of
                  None \<Rightarrow> None
                | Some s3 \<Rightarrow>
                    Some (if room_len_zero (rooms s3) (room c)
                          then s3\<lparr>rooms := (rooms s3)(room c := None)\<rparr>
                          else s3)))"

section \<open>What HandleWebSocket and the pumps send to the hub\<close>

text \<open>
  \<open>HandleWebSocket\<close> refuses an empty room or username, builds a client with a send
  channel of capacity 256 at a new address, sends it on \<open>register\<close> and then sends the
  join message on \<open>broadcast\<close>. \<open>readPump\<close> sends one chat message per frame it reads and
  the client itself on \<open>unregister\<close> when it stops; \<open>writePump\<close> receives from \<open>send\<close>.
\<close>

definition newClient :: "string \<Rightarrow> string \<Rightarrow> Client" where
  "newClient name user = \<lparr>send = make_chan 256, room = name, username = user\<rparr>"

definition alloc :: "cref \<Rightarrow> string \<Rightarrow> string \<Rightarrow> state \<Rightarrow> state" where
  "alloc client name user s =
     s\<lparr>heap := (heap s)(client := newClient name user), allocd := insert client (allocd s)\<rparr>"

definition joinMessage :: "string \<Rightarrow> string \<Rightarrow> Message" where
  "joinMessage name user =
     \<lparr>Type = ''user_joined'', Content = user @ '' joined the room'',
      RoomName = name, Username = user\<rparr>"

definition chatMessage :: "Client \<Rightarrow> string \<Rightarrow> Message" where
  "chatMessage c message =
     \<lparr>Type = ''chat'', Content = message, RoomName = room c, Username = username c\<rparr>"

definition receive :: "cref \<Rightarrow> state \<Rightarrow> state" where
  "receive client s =
     s\<lparr>heap := (heap s)(client :=
          (heap s client)\<lparr>send := (send (heap s client))\<lparr>buf := tl (buf (send (heap s client)))\<rparr>\<rparr>)\<rparr>"

text \<open>
  The states the hub can be in: \<open>Run\<close> handles one event at a time, and the events are
  those the admission handler and the pumps of the clients built so far can send. The
  relation asks nothing about how often or in which order the events of a client come
  once it has registered, so it holds every state the program can reach and possibly
  more.
\<close>

inductive reachable :: "marshal \<Rightarrow> state \<Rightarrow> bool" for mar :: marshal where
  start: "reachable mar NewHub"
| register:
    "reachable mar s \<Longrightarrow> client \<notin> allocd s \<Longrightarrow> name \<noteq> [] \<Longrightarrow> user \<noteq> [] \<Longrightarrow>
     range_ok it_users \<Longrightarrow> range_ok it_send \<Longrightarrow>
     handleRegister mar it_users it_send client (alloc client name user s) = Some s' \<Longrightarrow>
     reachable mar s'"
| join:
    "reachable mar s \<Longrightarrow> client \<in> allocd s \<Longrightarrow> range_ok it \<Longrightarrow>
     handleBroadcast mar it (joinMessage (room (heap s client)) (username (heap s client))) s =
       Some s' \<Longrightarrow>
     reachable mar s'"
| chat:
    "reachable mar s \<Longrightarrow> client \<in> allocd s \<Longrightarrow> range_ok it \<Longrightarrow>
     handleBroadcast mar it (chatMessage (heap s client) message) s = Some s' \<Longrightarrow>
     reachable mar s'"
| unregister:
    "reachable mar s \<Longrightarrow> client \<in> allocd s \<Longrightarrow>
     range_ok it_left \<Longrightarrow> range_ok it_users \<Longrightarrow> range_ok it_send \<Longrightarrow>
     handleUnregister mar it_left it_users it_send client s = Some s' \<Longrightarrow>
     reachable mar s'"
| written:
    "reachable mar s \<Longrightarrow> client \<in> allocd s \<Longrightarrow> buf (send (heap s client)) \<noteq> [] \<Longrightarrow>
     reachable mar (receive client s)"

text \<open>
  What can happen after the hub has reached a state \<open>s\<close>: \<open>later mar c s k t\<close> says that the
  hub gets from \<open>s\<close> to \<open>t\<close> by handling any number of further events of the same kinds,
  and that meanwhile the write pump of the client \<open>c\<close> has received \<open>k\<close> values from its
  send channel.
\<close>

inductive later :: "marshal \<Rightarrow> cref \<Rightarrow> state \<Rightarrow> nat \<Rightarrow> state \<Rightarrow> bool"
  for mar :: marshal and c :: cref and s :: state where
  now: "later mar c s 0 s"
| register:
    "later mar c s k t \<Longrightarrow> client \<notin> allocd t \<Longrightarrow> name \<noteq> [] \<Longrightarrow> user \<noteq> [] \<Longrightarrow>
     range_ok it_users \<Longrightarrow> range_ok it_send \<Longrightarrow>
     handleRegister mar it_users it_send client (alloc client name user t) = Some t' \<Longrightarrow>
     later mar c s k t'"
| join:
    "later mar c s k t \<Longrightarrow> client \<in> allocd t \<Longrightarrow> range_ok it \<Longrightarrow>
     handleBroadcast mar it (joinMessage (room (heap t client)) (username (heap t client))) t =
       Some t' \<Longrightarrow>
     later mar c s k t'"
| chat:
    "later mar c s k t \<Longrightarrow> client \<in> allocd t \<Longrightarrow> range_ok it \<Longrightarrow>
     handleBroadcast mar it (chatMessage (heap t client) message) t = Some t' \<Longrightarrow>
     later mar c s k t'"
| unregister:
    "later mar c s k t \<Longrightarrow> client \<in> allocd t \<Longrightarrow>
     range_ok it_left \<Longrightarrow> range_ok it_users \<Longrightarrow> range_ok it_send \<Longrightarrow>
     handleUnregister mar it_left it_users it_send client t = Some t' \<Longrightarrow>
     later mar c s k t'"
| written:
    "later mar c s k t \<Longrightarrow> client \<in> allocd t \<Longrightarrow> buf (send (heap t client)) \<noteq> [] \<Longrightarrow>
     later mar c s (if client = c then Suc k else k) (receive client t)"

section \<open>Timing constants of the client\<close>

text \<open>
  \<open>time.Second\<close> is a \<open>time.Duration\<close>, a count of nanoseconds in an \<open>int64\<close>. Constant
  expressions are evaluated exactly by the compiler and must fit the type.
\<close>

definition Second :: int where "Second = 1000000000"

definition writeWait :: int where "writeWait = 10 * Second"

definition pongWait :: int where "pongWait = 60 * Second"

definition pingPeriod :: int where "pingPeriod = (pongWait * 9) div 10"

definition maxMessageSize :: int where "maxMessageSize = 512"

section \<open>Closed forms of the handlers\<close>

text \<open>
  What one pass of the loop of \<open>handleBroadcast\<close> does to a client of the room: a client
  whose buffer is full has its channel closed, any other gets the message appended.
\<close>

definition full :: "Client \<Rightarrow> bool" where
  "full c \<longleftrightarrow> \<not> length (buf (send c)) < capacity (send c)"

definition deliver :: "bytes \<Rightarrow> Client \<Rightarrow> Client" where
  "deliver b c = (if full c then c\<lparr>send := (send c)\<lparr>is_closed := True\<rparr>\<rparr>
                  else c\<lparr>send := (send c)\<lparr>buf := buf (send c) @ [b]\<rparr>\<rparr>)"

definition evicted :: "state \<Rightarrow> cref set \<Rightarrow> cref set" where
  "evicted s C = {d \<in> C. full (heap s d)}"

text \<open>The state after the whole loop has visited the clients \<open>C\<close> of the room \<open>name\<close>.\<close>

definition routed :: "bytes \<Rightarrow> string \<Rightarrow> cref set \<Rightarrow> state \<Rightarrow> state" where
  "routed b name C s =
     s\<lparr>heap := (\<lambda>d. if d \<in> C then deliver b (heap s d) else heap s d),
       clients := clients s - evicted s C,
       rooms := (case rooms s name of None \<Rightarrow> rooms s
                 | Some roomClients \<Rightarrow> (rooms s)(name \<mapsto> roomClients - evicted s C))\<rparr>"

text \<open>
  The first half of \<open>handleRegister\<close> and of \<open>handleUnregister\<close> (the updates of the two
  maps, before anything is broadcast), and the last statement of \<open>handleUnregister\<close>.
\<close>

definition enter :: "cref \<Rightarrow> state \<Rightarrow> state" where
  "enter client s =
     s\<lparr>rooms := (rooms s)(room (heap s client) \<mapsto> insert client (members s (room (heap s client)))),
       clients := insert client (clients s)\<rparr>"

definition leave :: "cref \<Rightarrow> state \<Rightarrow> state" where
  "leave client s =
     s\<lparr>clients := clients s - {client},
       rooms := room_delete (room (heap s client)) client (rooms s)\<rparr>"

definition cleanup :: "string \<Rightarrow> state \<Rightarrow> state" where
  "cleanup name s = (if members s name = {} then s\<lparr>rooms := (rooms s)(name := None)\<rparr> else s)"

text \<open>
  The invariant of the hub: the registered clients are finitely many allocated
  addresses, each sits in the set of the room written in its struct and has an open
  channel, and a room's set holds registered clients of that room only.
\<close>

definition hub_inv :: "state \<Rightarrow> bool" where
  "hub_inv s \<longleftrightarrow>
     finite (clients s) \<and> clients s \<subseteq> allocd s \<and>
     (\<forall>c\<in>clients s. c \<in> members s (room (heap s c)) \<and> \<not> is_closed (send (heap s c))) \<and>
     (\<forall>name. \<forall>c\<in>members s name. c \<in> clients s \<and> room (heap s c) = name)"

section \<open>Concrete runs\<close>

text \<open>
  An encoder that never fails and keeps the four fields apart, used to run the handlers
  on concrete states.
\<close>

definition sampleMarshal :: marshal where
  "sampleMarshal m =
     Inr (Type m @ ''|'' @ Content m @ ''|'' @ RoomName m @ ''|'' @ Username m)"

definition failingMarshal :: marshal where
  "failingMarshal m = Inl ''unsupported value''"

text \<open>
  The hub after \<open>alice\<close> at address 0 has registered in room \<open>lobby\<close>, and the hub with
  \<open>alice\<close> and \<open>bob\<close> in the lobby where the buffer of \<open>bob\<close> holds 256 unread messages.
\<close>

definition aliceIn :: state where
  "aliceIn =
     \<lparr>clients = {0}, rooms = [''lobby'' \<mapsto> {0}],
      heap = (\<lambda>_. zeroClient)(0 :=
        \<lparr>send = \<lparr>buf = [''online_users|alice|lobby|''], capacity = 256, is_closed = False\<rparr>,
         room = ''lobby'', username = ''alice''\<rparr>),
      logs = [], allocd = {0}\<rparr>"

definition bobStalled :: state where
  "bobStalled =
     \<lparr>clients = {0, 1}, rooms = [''lobby'' \<mapsto> {0, 1}],
      heap = (\<lambda>_. zeroClient)
        (0 := \<lparr>send = \<lparr>buf = [], capacity = 256, is_closed = False\<rparr>,
               room = ''lobby'', username = ''alice''\<rparr>,
         1 := \<lparr>send = \<lparr>buf = replicate 256 ''m'', capacity = 256, is_closed = False\<rparr>,
               room = ''lobby'', username = ''bob''\<rparr>),
      logs = [], allocd = {0, 1}\<rparr>"

text \<open>
  Two more states: \<open>alice\<close> in the lobby and \<open>carol\<close> (address 1) in the kitchen, and
  \<open>alice\<close> and \<open>bob\<close> (address 1) both in the lobby, each right after registering.
\<close>

definition twoRooms :: state where
  "twoRooms =
     \<lparr>clients = {0, 1}, rooms = [''lobby'' \<mapsto> {0}, ''kitchen'' \<mapsto> {1}],
      heap = (\<lambda>_. zeroClient)
        (0 := \<lparr>send = \<lparr>buf = [''online_users|alice|lobby|''], capacity = 256, is_closed = False\<rparr>,
               room = ''lobby'', username = ''alice''\<rparr>,
         1 := \<lparr>send = \<lparr>buf = [''online_users|carol|kitchen|''], capacity = 256, is_closed = False\<rparr>,
               room = ''kitchen'', username = ''carol''\<rparr>),
      logs = [], allocd = {0, 1}\<rparr>"

definition aliceBob :: state where
  "aliceBob =
     \<lparr>clients = {0, 1}, rooms = [''lobby'' \<mapsto> {0, 1}],
      heap = (\<lambda>_. zeroClient)
        (0 := \<lparr>send = \<lparr>buf = [''online_users|alice|lobby|'', ''online_users|alice,bob|lobby|''],
                        capacity = 256, is_closed = False\<rparr>,
               room = ''lobby'', username = ''alice''\<rparr>,
         1 := \<lparr>send = \<lparr>buf = [''online_users|alice,bob|lobby|''], capacity = 256, is_closed = False\<rparr>,
               room = ''lobby'', username = ''bob''\<rparr>),
      logs = [], allocd = {0, 1}\<rparr>"


text \<open>
  The hub after \<open>bob\<close> has left the lobby again.
\<close>

definition aliceAlone :: state where
  "aliceAlone =
     \<lparr>clients = {0}, rooms = [''lobby'' \<mapsto> {0}],
      heap = (\<lambda>_. zeroClient)
        (0 := \<lparr>send = \<lparr>buf = [''online_users|alice|lobby|'', ''online_users|alice,bob|lobby|'',
                               ''user_left|bob left the room|lobby|bob'', ''online_users|alice|lobby|''],
                        capacity = 256, is_closed = False\<rparr>,
               room = ''lobby'', username = ''alice''\<rparr>,
         1 := \<lparr>send = \<lparr>buf = [''online_users|alice,bob|lobby|''], capacity = 256, is_closed = False\<rparr>,
               room = ''lobby'', username = ''bob''\<rparr>),
      logs = [], allocd = {0, 1}\<rparr>"

text \<open>
  The hub with \<open>alice\<close> alone in the lobby and the buffer \<open>q\<close> in her send channel; the
  state after her join message has been routed; the state in which she has read nothing
  while 254 chat messages were routed to the lobby; and what is left once one more
  message has been routed.
\<close>

definition aliceQueue :: "bytes list \<Rightarrow> state" where
  "aliceQueue q =
     \<lparr>clients = {0}, rooms = [''lobby'' \<mapsto> {0}],
      heap = (\<lambda>_. zeroClient)(0 :=
        \<lparr>send = \<lparr>buf = q, capacity = 256, is_closed = False\<rparr>,
         room = ''lobby'', username = ''alice''\<rparr>),
      logs = [], allocd = {0}\<rparr>"

definition aliceJoined :: state where
  "aliceJoined =
     aliceQueue [''online_users|alice|lobby|'', ''user_joined|alice joined the room|lobby|alice'']"

definition aliceStalled :: state where
  "aliceStalled =
     aliceQueue (''online_users|alice|lobby|'' # ''user_joined|alice joined the room|lobby|alice'' #
                 replicate 254 ''chat|hi|lobby|alice'')"

definition lobbyEmptied :: state where
  "lobbyEmptied =
     \<lparr>clients = {}, rooms = [''lobby'' \<mapsto> {}],
      heap = (\<lambda>_. zeroClient)(0 :=
        \<lparr>send = \<lparr>buf = ''online_users|alice|lobby|'' #
                         ''user_joined|alice joined the room|lobby|alice'' #
                         replicate 254 ''chat|hi|lobby|alice'',
                  capacity = 256, is_closed = True\<rparr>,
         room = ''lobby'', username = ''alice''\<rparr>),
      logs = [], allocd = {0}\<rparr>"

section \<open>The loop of handleBroadcast does not depend on the order of the visit\<close>

lemma routed_empty: "routed b name {} s = s"
  by (cases "rooms s name") (simp_all add: routed_def evicted_def map_upd_triv)

lemma evicted_single: "evicted s {c} = (if full (heap s c) then {c} else {})"
  by (auto simp: evicted_def)

lemma send_loop_routed:
  "distinct cs \<Longrightarrow> \<forall>c\<in>set cs. \<not> is_closed (send (heap s c)) \<Longrightarrow>
   send_loop b name cs s = Some (routed b name (set cs) s)"
proof (induction cs arbitrary: s)
  case Nil
  show ?case by (simp add: routed_empty)
next
  case (Cons c cs)
  let ?s1 = "s\<lparr>heap := (heap s)(c := deliver b (heap s c)),
                clients := clients s - evicted s {c},
                rooms := (case rooms s name of None \<Rightarrow> rooms s
                 | Some roomClients \<Rightarrow> (rooms s)(name \<mapsto> roomClients - evicted s {c}))\<rparr>"
  from Cons.prems have c: "c \<notin> set cs" "distinct cs" "\<not> is_closed (send (heap s c))"
    and op: "\<forall>d\<in>set cs. \<not> is_closed (send (heap s d))" by auto
  have step: "send_loop b name (c # cs) s = send_loop b name cs ?s1"
    using c(3)
    by (cases "rooms s name")
       (auto simp: select_send_def close_chan_def deliver_def evicted_single room_delete_def
          map_upd_triv full_def)
  have op1: "\<forall>d\<in>set cs. \<not> is_closed (send (heap ?s1 d))"
    using op c(1) by auto
  have ev: "evicted ?s1 (set cs) = evicted s (set cs)"
    using c(1) by (auto simp: evicted_def)
  have ins: "evicted s (insert c (set cs)) = evicted s {c} \<union> evicted s (set cs)"
    by (auto simp: evicted_def)
  have "routed b name (set cs) ?s1 = routed b name (set (c # cs)) s"
    unfolding routed_def ev using c(1)
    by (cases "rooms s name") (auto simp: ins fun_eq_iff Diff_eq Int_assoc intro!: state.equality)
  with step Cons.IH[OF c(2) op1] show ?case by simp
qed

lemma deliver_simps [simp]:
  "room (deliver b c) = room c"
  "username (deliver b c) = username c"
  "capacity (send (deliver b c)) = capacity (send c)"
  "is_closed (send (deliver b c)) \<longleftrightarrow> full c \<or> is_closed (send c)"
  "buf (send (deliver b c)) = (if full c then buf (send c) else buf (send c) @ [b])"
  by (simp_all add: deliver_def)

lemma routed_simps [simp]:
  "heap (routed b name C s) d = (if d \<in> C then deliver b (heap s d) else heap s d)"
  "clients (routed b name C s) = clients s - evicted s C"
  "logs (routed b name C s) = logs s"
  "allocd (routed b name C s) = allocd s"
  by (simp_all add: routed_def)

lemma members_routed [simp]:
  "members (routed b name C s) r = (if r = name then members s name - evicted s C else members s r)"
  by (cases "rooms s name") (simp_all add: routed_def members_def)

lemma rooms_routed:
  "rooms (routed b name C s) r =
     (if r = name then map_option (\<lambda>roomClients. roomClients - evicted s C) (rooms s name)
      else rooms s r)"
  by (cases "rooms s name") (simp_all add: routed_def)

lemma evicted_subset [simp]: "evicted s C \<subseteq> C"
  by (auto simp: evicted_def)

lemma evicted_iff [simp]: "d \<in> evicted s C \<longleftrightarrow> d \<in> C \<and> full (heap s d)"
  by (simp add: evicted_def)

lemma handleBroadcast_routed:
  assumes "mar msg = Inr b" and "range_ok it"
    and "finite (members s (RoomName msg))"
    and "\<forall>c\<in>members s (RoomName msg). \<not> is_closed (send (heap s c))"
  shows "handleBroadcast mar it msg s = Some (routed b (RoomName msg) (members s (RoomName msg)) s)"
proof (cases "rooms s (RoomName msg)")
  case None
  then show ?thesis using assms(1) by (simp add: handleBroadcast_def members_def routed_empty)
next
  case (Some roomClients)
  then have m: "members s (RoomName msg) = roomClients" by (simp add: members_def)
  with assms(2,3) have "set (it roomClients) = roomClients" "distinct (it roomClients)"
    by (simp_all add: range_ok_def)
  with send_loop_routed[of "it roomClients" s b "RoomName msg"] assms(4) m Some assms(1)
  show ?thesis by (simp add: handleBroadcast_def)
qed

lemma handleBroadcast_error:
  "mar msg = Inl err \<Longrightarrow>
   handleBroadcast mar it msg s = Some (s\<lparr>logs := logs s @ [''Error marshaling message: '' @ err]\<rparr>)"
  by (simp add: handleBroadcast_def)

lemma hub_inv_members_finite: "hub_inv s \<Longrightarrow> finite (members s name)"
  unfolding hub_inv_def by (rule finite_subset[of _ "clients s"]) auto

lemma hub_inv_members_open: "hub_inv s \<Longrightarrow> c \<in> members s name \<Longrightarrow> \<not> is_closed (send (heap s c))"
  unfolding hub_inv_def by blast

lemma routed_heap_fields [simp]:
  "room (heap (routed b name C s) d) = room (heap s d)"
  "username (heap (routed b name C s) d) = username (heap s d)"
  "capacity (send (heap (routed b name C s) d)) = capacity (send (heap s d))"
  "is_closed (send (heap (routed b name C s) d)) \<longleftrightarrow>
     is_closed (send (heap s d)) \<or> d \<in> evicted s C"
  by (auto simp: routed_def)

lemma hub_invD:
  assumes "hub_inv s"
  shows "finite (clients s)" and "clients s \<subseteq> allocd s"
    and "c \<in> clients s \<Longrightarrow> c \<in> members s (room (heap s c))"
    and "c \<in> clients s \<Longrightarrow> \<not> is_closed (send (heap s c))"
    and "c \<in> members s r \<Longrightarrow> c \<in> clients s"
    and "c \<in> members s r \<Longrightarrow> room (heap s c) = r"
  using assms by (simp_all add: hub_inv_def)

lemma hub_invI:
  assumes "finite (clients s)" and "clients s \<subseteq> allocd s"
    and "\<And>c. c \<in> clients s \<Longrightarrow> c \<in> members s (room (heap s c))"
    and "\<And>c. c \<in> clients s \<Longrightarrow> \<not> is_closed (send (heap s c))"
    and "\<And>c r. c \<in> members s r \<Longrightarrow> c \<in> clients s"
    and "\<And>c r. c \<in> members s r \<Longrightarrow> room (heap s c) = r"
  shows "hub_inv s"
  using assms by (simp add: hub_inv_def)

lemma hub_inv_routed:
  assumes "hub_inv s"
  shows "hub_inv (routed b name (members s name) s)"
proof (rule hub_invI)
  let ?s' = "routed b name (members s name) s"
  show "finite (clients ?s')" using hub_invD(1)[OF assms] by simp
  show "clients ?s' \<subseteq> allocd ?s'" using hub_invD(2)[OF assms] by auto
  show "c \<in> members ?s' (room (heap ?s' c))" if "c \<in> clients ?s'" for c
    using that hub_invD(3)[OF assms, of c] by (auto simp del: routed_simps(1))
  show "\<not> is_closed (send (heap ?s' c))" if "c \<in> clients ?s'" for c
    using that hub_invD(4)[OF assms, of c] by (simp del: routed_simps(1))
  show "c \<in> clients ?s'" if "c \<in> members ?s' r" for c r
    using that hub_invD(5)[OF assms, of c r] hub_invD(6)[OF assms, of c r]
      hub_invD(6)[OF assms, of c name]
    by (auto simp del: routed_simps(1) split: if_splits)
  show "room (heap ?s' c) = r" if "c \<in> members ?s' r" for c r
    using that hub_invD(6)[OF assms, of c r] by (simp del: routed_simps(1) split: if_splits)
qed

lemma hub_inv_logs [simp]: "hub_inv (s\<lparr>logs := l\<rparr>) = hub_inv s"
  by (simp add: hub_inv_def members_def)

lemma hub_inv_handleBroadcast:
  assumes "hub_inv s" "range_ok it"
  shows "\<exists>s'. handleBroadcast mar it msg s = Some s' \<and> hub_inv s'"
proof (cases "mar msg")
  case (Inl err)
  then show ?thesis using assms by (simp add: handleBroadcast_error)
next
  case (Inr b)
  have "handleBroadcast mar it msg s = Some (routed b (RoomName msg) (members s (RoomName msg)) s)"
    using handleBroadcast_routed[of mar msg b it s] Inr assms(2)
      hub_inv_members_finite[OF assms(1)] hub_inv_members_open[OF assms(1)] by blast
  with hub_inv_routed[OF assms(1)] show ?thesis by simp
qed

lemma handleRegister_enter:
  "handleRegister mar it_users it_send client s =
     broadcastRoomUsers mar it_users it_send (room (heap s client)) (enter client s)"
  by (cases "rooms s (room (heap s client))")
     (simp_all add: handleRegister_def enter_def members_def Let_def)

lemma handleUnregister_leave:
  "client \<in> clients s \<Longrightarrow>
   handleUnregister mar it_left it_users it_send client s =
     (case handleBroadcast mar it_left (userLeftMessage (heap s client)) (leave client s) of
        None \<Rightarrow> None
      | Some s2 \<Rightarrow>
          map_option (cleanup (room (heap s client)))
            (broadcastRoomUsers mar it_users it_send (room (heap s client)) s2))"
  by (auto simp: handleUnregister_def leave_def Let_def cleanup_def room_len_zero_def members_def
      split: option.splits)

lemma enter_simps [simp]:
  "heap (enter c s) = heap s" "clients (enter c s) = insert c (clients s)"
  "logs (enter c s) = logs s" "allocd (enter c s) = allocd s"
  "members (enter c s) r = (if r = room (heap s c) then insert c (members s r) else members s r)"
  by (simp_all add: enter_def members_def)

lemma leave_simps [simp]:
  "heap (leave c s) = heap s" "clients (leave c s) = clients s - {c}"
  "logs (leave c s) = logs s" "allocd (leave c s) = allocd s"
  "members (leave c s) r = (if r = room (heap s c) then members s r - {c} else members s r)"
  by (simp_all add: leave_def members_def room_delete_def split: option.splits)

lemma cleanup_simps [simp]:
  "heap (cleanup r s) = heap s" "clients (cleanup r s) = clients s"
  "logs (cleanup r s) = logs s" "allocd (cleanup r s) = allocd s"
  "members (cleanup r s) = members s"
  by (auto simp: cleanup_def members_def fun_eq_iff)

lemma alloc_simps [simp]:
  "heap (alloc c name user s) = (heap s)(c := newClient name user)"
  "clients (alloc c name user s) = clients s"
  "logs (alloc c name user s) = logs s" "allocd (alloc c name user s) = insert c (allocd s)"
  "members (alloc c name user s) = members s"
  "rooms (alloc c name user s) = rooms s"
  by (simp_all add: alloc_def members_def fun_eq_iff)

lemma receive_simps [simp]:
  "clients (receive c s) = clients s"
  "logs (receive c s) = logs s" "allocd (receive c s) = allocd s"
  "members (receive c s) = members s" "rooms (receive c s) = rooms s"
  "room (heap (receive c s) d) = room (heap s d)"
  "username (heap (receive c s) d) = username (heap s d)"
  "is_closed (send (heap (receive c s) d)) = is_closed (send (heap s d))"
  by (simp_all add: receive_def members_def fun_eq_iff)

lemma newClient_simps [simp]:
  "room (newClient name user) = name" "username (newClient name user) = user"
  "send (newClient name user) = make_chan 256"
  by (simp_all add: newClient_def)

lemma make_chan_simps [simp]:
  "buf (make_chan n) = []" "capacity (make_chan n) = n" "\<not> is_closed (make_chan n)"
  by (simp_all add: make_chan_def)

lemma hub_inv_cleanup [simp]: "hub_inv (cleanup r s) = hub_inv s"
  by (simp add: hub_inv_def)

lemma hub_inv_receive [simp]: "hub_inv (receive c s) = hub_inv s"
  by (simp add: hub_inv_def)

lemma hub_inv_leave:
  assumes "hub_inv s"
  shows "hub_inv (leave c s)"
proof (rule hub_invI)
  let ?s' = "leave c s"
  show "finite (clients ?s')" using hub_invD(1)[OF assms] by simp
  show "clients ?s' \<subseteq> allocd ?s'" using hub_invD(2)[OF assms] by auto
  show "d \<in> members ?s' (room (heap ?s' d))" if "d \<in> clients ?s'" for d
    using that hub_invD(3)[OF assms, of d] by auto
  show "\<not> is_closed (send (heap ?s' d))" if "d \<in> clients ?s'" for d
    using that hub_invD(4)[OF assms, of d] by simp
  show "d \<in> clients ?s'" if "d \<in> members ?s' r" for d r
    using that hub_invD(5)[OF assms, of d r] hub_invD(6)[OF assms, of d r]
    by (auto split: if_splits)
  show "room (heap ?s' d) = r" if "d \<in> members ?s' r" for d r
    using that hub_invD(6)[OF assms, of d r] by (simp split: if_splits)
qed

lemma hub_inv_enter_alloc:
  assumes "hub_inv s" "c \<notin> allocd s"
  shows "hub_inv (enter c (alloc c name user s))"
proof (rule hub_invI)
  let ?s' = "enter c (alloc c name user s)"
  have fresh: "c \<notin> clients s" using assms(2) hub_invD(2)[OF assms(1)] by auto
  have fresh': "c \<notin> members s r" for r using fresh hub_invD(5)[OF assms(1), of c r] by auto
  show "finite (clients ?s')" using hub_invD(1)[OF assms(1)] by simp
  show "clients ?s' \<subseteq> allocd ?s'" using hub_invD(2)[OF assms(1)] by auto
  show "d \<in> members ?s' (room (heap ?s' d))" if "d \<in> clients ?s'" for d
    using that hub_invD(3)[OF assms(1), of d] by auto
  show "\<not> is_closed (send (heap ?s' d))" if "d \<in> clients ?s'" for d
    using that hub_invD(4)[OF assms(1), of d] by auto
  show "d \<in> clients ?s'" if "d \<in> members ?s' r" for d r
    using that hub_invD(5)[OF assms(1), of d r] by (auto split: if_splits)
  show "room (heap ?s' d) = r" if "d \<in> members ?s' r" for d r
    using that hub_invD(6)[OF assms(1), of d r] fresh'[of r] by (auto split: if_splits)
qed

lemma hub_inv_NewHub: "hub_inv NewHub"
  by (simp add: hub_inv_def NewHub_def members_def)

lemma hub_inv_handleRegister:
  assumes "hub_inv s" "c \<notin> allocd s" "range_ok it_send"
  shows "\<exists>s'. handleRegister mar it_users it_send c (alloc c name user s) = Some s' \<and> hub_inv s'"
  unfolding handleRegister_enter broadcastRoomUsers_def
  using hub_inv_handleBroadcast[OF _ assms(3)] hub_inv_enter_alloc[OF assms(1,2)] by simp

lemma hub_inv_handleUnregister:
  assumes "hub_inv s" "range_ok it_left" "range_ok it_send"
  shows "\<exists>s'. handleUnregister mar it_left it_users it_send c s = Some s' \<and> hub_inv s'"
proof (cases "c \<in> clients s")
  case False
  then show ?thesis using assms(1) by (simp add: handleUnregister_def)
next
  case True
  obtain s2 where s2: "handleBroadcast mar it_left (userLeftMessage (heap s c)) (leave c s) = Some s2"
      "hub_inv s2"
    using hub_inv_handleBroadcast[OF hub_inv_leave[OF assms(1)] assms(2)] by blast
  obtain s3 where s3: "broadcastRoomUsers mar it_users it_send (room (heap s c)) s2 = Some s3"
      "hub_inv s3"
    unfolding broadcastRoomUsers_def using hub_inv_handleBroadcast[OF s2(2) assms(3)] by blast
  show ?thesis using s2 s3 by (simp add: handleUnregister_leave[OF True])
qed

lemma reachable_hub_inv: "reachable mar s \<Longrightarrow> hub_inv s"
proof (induction rule: reachable.induct)
  case start
  show ?case by (rule hub_inv_NewHub)
next
  case (register s client name user it_users it_send s')
  with hub_inv_handleRegister[of s client it_send mar it_users name user] show ?case by auto
next
  case (join s client it s')
  with hub_inv_handleBroadcast[of s it mar
      "joinMessage (room (heap s client)) (username (heap s client))"]
  show ?case by auto
next
  case (chat s client it message s')
  with hub_inv_handleBroadcast[of s it mar "chatMessage (heap s client) message"]
  show ?case by auto
next
  case (unregister s client it_left it_users it_send s')
  with hub_inv_handleUnregister[of s it_left it_send mar it_users client] show ?case by auto
next
  case (written s client)
  then show ?case by simp
qed

section \<open>Timing constants\<close>

text \<open>
  C9: the read deadline \<open>pongWait\<close> is 60 seconds, the ping period is nine tenths of it,
  that is 54 seconds and strictly less than the deadline, the write deadline
  \<open>writeWait\<close> is 10 seconds, and a frame read from the peer is limited to 512 bytes.
\<close>

theorem timing_constants:
  "pongWait = 60 * Second \<and> pingPeriod * 10 = pongWait * 9 \<and> pingPeriod = 54 * Second \<and>
   pingPeriod < pongWait \<and> writeWait = 10 * Second \<and> maxMessageSize = 512 \<and>
   Second = 1000000000 \<and> pongWait * 9 < 2 ^ 63"
  by (simp add: pongWait_def pingPeriod_def writeWait_def maxMessageSize_def Second_def)

section \<open>A message that cannot be serialized\<close>

text \<open>
  C8: when \<open>json.Marshal\<close> returns an error, \<open>handleBroadcast\<close> returns normally, writes
  one line to the log, and leaves the set of clients, the rooms and every client (its
  channel with it) as they were: nobody receives anything.
\<close>

theorem marshal_failure_drops_message:
  "mar msg = Inl err \<Longrightarrow>
   \<exists>s'. handleBroadcast mar it msg s = Some s' \<and>
        clients s' = clients s \<and> rooms s' = rooms s \<and> heap s' = heap s \<and>
        allocd s' = allocd s \<and>
        logs s' = logs s @ [''Error marshaling message: '' @ err]"
  by (simp add: handleBroadcast_def)

theorem marshal_failure_drops_message_witness:
  "failingMarshal (chatMessage (heap aliceIn 0) ''hi'') = Inl ''unsupported value'' \<and>
   (\<exists>s'. handleBroadcast failingMarshal sorted_list_of_set
           (chatMessage (heap aliceIn 0) ''hi'') aliceIn = Some s' \<and>
         clients s' = clients aliceIn \<and> rooms s' = rooms aliceIn \<and> heap s' = heap aliceIn \<and>
         allocd s' = allocd aliceIn \<and>
         logs s' = logs aliceIn @ [''Error marshaling message: '' @ ''unsupported value''])"
proof -
  have h: "failingMarshal (chatMessage (heap aliceIn 0) ''hi'') = Inl ''unsupported value''"
    by (simp add: failingMarshal_def)
  show ?thesis
    using h marshal_failure_drops_message [of failingMarshal _ _ sorted_list_of_set aliceIn] by blast
qed

section \<open>Membership invariant\<close>

lemma range_ok_sorted: "range_ok sorted_list_of_set"
  by (simp add: range_ok_def)

lemma register_alice:
  "handleRegister sampleMarshal sorted_list_of_set sorted_list_of_set 0
     (alloc 0 ''lobby'' ''alice'' NewHub) = Some aliceIn"
  by (simp add: handleRegister_def broadcastRoomUsers_def handleBroadcast_def
      onlineUsersMessage_def roomUsers_def alloc_def NewHub_def newClient_def make_chan_def
      sampleMarshal_def select_send_def aliceIn_def Let_def)

lemma reachable_aliceIn: "reachable sampleMarshal aliceIn"
  by (rule reachable.register
        [OF reachable.start _ _ _ range_ok_sorted range_ok_sorted register_alice])
     (simp_all add: NewHub_def)

text \<open>
  C7: in every state the hub can reach, a registered client is in the set of the room
  it joined and in the set of no other room, and whoever is in a room's set is
  registered. The reachable states are closed under registering, unregistering and
  routing (evictions included), so each of these operations preserves the property.
\<close>

theorem one_room_per_client:
  "reachable mar s \<Longrightarrow>
   (\<forall>c\<in>clients s. c \<in> members s (room (heap s c)) \<and>
                   (\<forall>r. c \<in> members s r \<longrightarrow> r = room (heap s c))) \<and>
   (\<forall>r. \<forall>c\<in>members s r. c \<in> clients s)"
proof -
  assume "reachable mar s"
  then have inv: "hub_inv s" by (rule reachable_hub_inv)
  show ?thesis
    using hub_invD(3)[OF inv] hub_invD(5)[OF inv] hub_invD(6)[OF inv] by blast
qed

theorem one_room_per_client_witness:
  "reachable sampleMarshal aliceIn \<and> 0 \<in> clients aliceIn \<and>
   0 \<in> members aliceIn (room (heap aliceIn 0)) \<and> 0 \<notin> members aliceIn ''kitchen''"
proof -
  have "0 \<in> clients aliceIn" "room (heap aliceIn 0) \<noteq> ''kitchen''"
    by (simp_all add: aliceIn_def)
  note a = this
  have b: "0 \<in> members aliceIn (room (heap aliceIn 0))"
    and c: "\<forall>r. 0 \<in> members aliceIn r \<longrightarrow> r = room (heap aliceIn 0)"
    using one_room_per_client [OF reachable_aliceIn] a(1) by blast+
  from c a(2) have "0 \<notin> members aliceIn ''kitchen''" by metis
  with a b reachable_aliceIn show ?thesis by simp
qed

section \<open>Routing a message\<close>

text \<open>
  C2: when \<open>handleBroadcast\<close> routes a message to a room, every client of the room whose
  send buffer is full has its channel closed and is deleted from \<open>clients\<close> and from the
  room's set within that call, with nothing added to its buffer; every other client of
  the room gets the serialized message appended to its buffer and stays registered. The
  call returns (the \<open>select\<close> has a default branch), and no buffer receives anything but
  this one message, so no leave notice or roster is sent for an evicted client.
\<close>

theorem eviction_on_full_queue:
  assumes "mar msg = Inr jsonMsg" and "range_ok it"
    and "finite (members s (RoomName msg))"
    and "\<forall>c\<in>members s (RoomName msg). \<not> is_closed (send (heap s c))"
  shows "\<exists>s'. handleBroadcast mar it msg s = Some s' \<and>
           (\<forall>c\<in>members s (RoomName msg).
              if length (buf (send (heap s c))) < capacity (send (heap s c))
              then buf (send (heap s' c)) = buf (send (heap s c)) @ [jsonMsg] \<and>
                   \<not> is_closed (send (heap s' c)) \<and>
                   c \<in> members s' (RoomName msg) \<and> (c \<in> clients s' \<longleftrightarrow> c \<in> clients s)
              else is_closed (send (heap s' c)) \<and>
                   buf (send (heap s' c)) = buf (send (heap s c)) \<and>
                   c \<notin> clients s' \<and> c \<notin> members s' (RoomName msg)) \<and>
           (\<forall>c. c \<notin> members s (RoomName msg) \<longrightarrow>
              heap s' c = heap s c \<and> (c \<in> clients s' \<longleftrightarrow> c \<in> clients s)) \<and>
           (\<forall>r. r \<noteq> RoomName msg \<longrightarrow> rooms s' r = rooms s r) \<and>
           logs s' = logs s"
proof -
  let ?s' = "routed jsonMsg (RoomName msg) (members s (RoomName msg)) s"
  have "handleBroadcast mar it msg s = Some ?s'"
    using assms by (rule handleBroadcast_routed)
  moreover have "\<forall>c\<in>members s (RoomName msg).
              if length (buf (send (heap s c))) < capacity (send (heap s c))
              then buf (send (heap ?s' c)) = buf (send (heap s c)) @ [jsonMsg] \<and>
                   \<not> is_closed (send (heap ?s' c)) \<and>
                   c \<in> members ?s' (RoomName msg) \<and> (c \<in> clients ?s' \<longleftrightarrow> c \<in> clients s)
              else is_closed (send (heap ?s' c)) \<and>
                   buf (send (heap ?s' c)) = buf (send (heap s c)) \<and>
                   c \<notin> clients ?s' \<and> c \<notin> members ?s' (RoomName msg)"
    using assms(4) by (simp add: full_def)
  moreover have "\<forall>c. c \<notin> members s (RoomName msg) \<longrightarrow>
              heap ?s' c = heap s c \<and> (c \<in> clients ?s' \<longleftrightarrow> c \<in> clients s)"
    by simp
  moreover have "\<forall>r. r \<noteq> RoomName msg \<longrightarrow> rooms ?s' r = rooms s r"
    by (simp add: rooms_routed)
  moreover have "logs ?s' = logs s" by simp
  ultimately show ?thesis by blast
qed


lemma members_bobStalled: "members bobStalled ''lobby'' = {0, 1}"
  by (simp add: members_def bobStalled_def)

theorem eviction_on_full_queue_witness:
  "\<exists>s'. handleBroadcast sampleMarshal sorted_list_of_set
          (chatMessage (heap bobStalled 0) ''hi'') bobStalled = Some s' \<and>
        buf (send (heap s' 0)) = [''chat|hi|lobby|alice''] \<and> 0 \<in> clients s' \<and>
        0 \<in> members s' ''lobby'' \<and>
        is_closed (send (heap s' 1)) \<and> buf (send (heap s' 1)) = replicate 256 ''m'' \<and>
        1 \<notin> clients s' \<and> 1 \<notin> members s' ''lobby''"
proof -
  let ?msg = "chatMessage (heap bobStalled 0) ''hi''"
  have r: "RoomName ?msg = ''lobby''" by (simp add: chatMessage_def bobStalled_def)
  have 1: "sampleMarshal ?msg = Inr ''chat|hi|lobby|alice''"
    by (simp add: sampleMarshal_def chatMessage_def bobStalled_def)
  have 2: "finite (members bobStalled (RoomName ?msg))"
    by (simp add: r members_bobStalled)
  have 3: "\<forall>c\<in>members bobStalled (RoomName ?msg). \<not> is_closed (send (heap bobStalled c))"
    by (simp add: r members_bobStalled) (simp add: bobStalled_def)
  from eviction_on_full_queue [of sampleMarshal ?msg _ sorted_list_of_set bobStalled,
      OF 1 range_ok_sorted 2 3]
  obtain s' where s': "handleBroadcast sampleMarshal sorted_list_of_set ?msg bobStalled = Some s'"
    and m: "\<forall>c\<in>{0, 1}.
              if length (buf (send (heap bobStalled c))) < capacity (send (heap bobStalled c))
              then buf (send (heap s' c)) = buf (send (heap bobStalled c)) @ [''chat|hi|lobby|alice''] \<and>
                   \<not> is_closed (send (heap s' c)) \<and>
                   c \<in> members s' ''lobby'' \<and> (c \<in> clients s' \<longleftrightarrow> c \<in> clients bobStalled)
              else is_closed (send (heap s' c)) \<and>
                   buf (send (heap s' c)) = buf (send (heap bobStalled c)) \<and>
                   c \<notin> clients s' \<and> c \<notin> members s' ''lobby''"
    unfolding r members_bobStalled by blast
  from m have "buf (send (heap s' 0)) = [''chat|hi|lobby|alice''] \<and> 0 \<in> clients s' \<and>
        0 \<in> members s' ''lobby'' \<and>
        is_closed (send (heap s' 1)) \<and> buf (send (heap s' 1)) = replicate 256 ''m'' \<and>
        1 \<notin> clients s' \<and> 1 \<notin> members s' ''lobby''"
    by (simp add: bobStalled_def)
  with s' show ?thesis by blast
qed

text \<open>
  C4: in a reachable state, routing a message leaves every client outside the set of
  the message's room untouched; in particular a client that sits in the set of any other
  room finds nothing added to its buffer.
\<close>

theorem room_isolation:
  assumes "reachable mar s" and "range_ok it"
  shows "\<exists>s'. handleBroadcast mar it msg s = Some s' \<and>
           (\<forall>c. c \<notin> members s (RoomName msg) \<longrightarrow> heap s' c = heap s c) \<and>
           (\<forall>r c. r \<noteq> RoomName msg \<and> c \<in> members s r \<longrightarrow> heap s' c = heap s c)"
proof -
  have inv: "hub_inv s" using assms(1) by (rule reachable_hub_inv)
  have other: "c \<notin> members s (RoomName msg)" if "r \<noteq> RoomName msg" "c \<in> members s r" for r c
    using hub_invD(6)[OF inv that(2)] hub_invD(6)[OF inv, of c "RoomName msg"] that(1) by blast
  show ?thesis
  proof (cases "mar msg")
    case (Inl err)
    then show ?thesis by (simp add: handleBroadcast_error)
  next
    case (Inr b)
    have "handleBroadcast mar it msg s =
            Some (routed b (RoomName msg) (members s (RoomName msg)) s)"
      using handleBroadcast_routed[of mar msg b it s] Inr assms(2)
        hub_inv_members_finite[OF inv] hub_inv_members_open[OF inv] by blast
    then show ?thesis using other by auto
  qed
qed


lemmas run_defs = handleRegister_def broadcastRoomUsers_def handleBroadcast_def
      onlineUsersMessage_def roomUsers_def alloc_def newClient_def make_chan_def
      sampleMarshal_def select_send_def Let_def

lemma register_carol:
  "handleRegister sampleMarshal sorted_list_of_set sorted_list_of_set 1
     (alloc 1 ''kitchen'' ''carol'' aliceIn) = Some twoRooms"
  by (simp add: run_defs aliceIn_def twoRooms_def insert_commute fun_upd_twist)

lemma register_bob:
  "handleRegister sampleMarshal sorted_list_of_set sorted_list_of_set 1
     (alloc 1 ''lobby'' ''bob'' aliceIn) = Some aliceBob"
  by (simp add: run_defs aliceIn_def aliceBob_def insert_commute fun_upd_twist)


lemma reachable_twoRooms: "reachable sampleMarshal twoRooms"
  by (rule reachable.register
        [OF reachable_aliceIn _ _ _ range_ok_sorted range_ok_sorted register_carol])
     (simp_all add: aliceIn_def)

lemma reachable_aliceBob: "reachable sampleMarshal aliceBob"
  by (rule reachable.register
        [OF reachable_aliceIn _ _ _ range_ok_sorted range_ok_sorted register_bob])
     (simp_all add: aliceIn_def)

theorem room_isolation_witness:
  "\<exists>s'. handleBroadcast sampleMarshal sorted_list_of_set
          (chatMessage (heap twoRooms 0) ''hi'') twoRooms = Some s' \<and>
        1 \<in> members twoRooms ''kitchen'' \<and> heap s' 1 = heap twoRooms 1"
proof -
  let ?msg = "chatMessage (heap twoRooms 0) ''hi''"
  have r: "''kitchen'' \<noteq> RoomName ?msg" "1 \<in> members twoRooms ''kitchen''"
    by (simp_all add: chatMessage_def twoRooms_def members_def)
  from room_isolation [OF reachable_twoRooms range_ok_sorted, of ?msg]
  obtain s' where "handleBroadcast sampleMarshal sorted_list_of_set ?msg twoRooms = Some s'"
    and "\<forall>r c. r \<noteq> RoomName ?msg \<and> c \<in> members twoRooms r \<longrightarrow> heap s' c = heap twoRooms c"
    by blast
  with r show ?thesis by blast
qed

lemma mset_ranging:
  "range_ok it \<Longrightarrow> finite S \<Longrightarrow> mset (it S) = mset_set S"
  using mset_set_set[of "it S"] by (simp add: range_ok_def)

section \<open>The roster\<close>

text \<open>
  C6: the message \<open>broadcastRoomUsers\<close> routes for a room has type \<open>online_users\<close>, the
  room's name, an empty username, and as content the usernames of the clients then in
  the room's set joined with commas: each client's name once, in the order the
  \<open>range\<close> happened to visit them.
\<close>

theorem roster_lists_room_members:
  assumes "range_ok it_users" and "finite (members s name)"
  shows "broadcastRoomUsers mar it_users it_send name s =
           handleBroadcast mar it_send (onlineUsersMessage it_users name s) s \<and>
         Type (onlineUsersMessage it_users name s) = ''online_users'' \<and>
         RoomName (onlineUsersMessage it_users name s) = name \<and>
         Username (onlineUsersMessage it_users name s) = [] \<and>
         Content (onlineUsersMessage it_users name s) = Join (roomUsers it_users name s) '','' \<and>
         mset (roomUsers it_users name s) =
           image_mset (\<lambda>c. username (heap s c)) (mset_set (members s name))"
proof -
  have "mset (roomUsers it_users name s) =
           image_mset (\<lambda>c. username (heap s c)) (mset_set (members s name))"
  proof (cases "rooms s name")
    case None
    then show ?thesis by (simp add: roomUsers_def members_def)
  next
    case (Some roomClients)
    then have "members s name = roomClients" by (simp add: members_def)
    with assms mset_ranging[of it_users roomClients] Some show ?thesis
      by (simp add: roomUsers_def)
  qed
  then show ?thesis by (simp add: broadcastRoomUsers_def onlineUsersMessage_def)
qed

theorem roster_lists_room_members_witness:
  "Content (onlineUsersMessage sorted_list_of_set ''lobby'' aliceBob) = ''alice,bob'' \<and>
   Username (onlineUsersMessage sorted_list_of_set ''lobby'' aliceBob) = [] \<and>
   mset (roomUsers sorted_list_of_set ''lobby'' aliceBob) =
     image_mset (\<lambda>c. username (heap aliceBob c)) (mset_set (members aliceBob ''lobby''))"
proof -
  have f: "finite (members aliceBob ''lobby'')" by (simp add: members_def aliceBob_def)
  have "Content (onlineUsersMessage sorted_list_of_set ''lobby'' aliceBob) = ''alice,bob''"
    by (simp add: onlineUsersMessage_def roomUsers_def aliceBob_def)
  with roster_lists_room_members [OF range_ok_sorted f, of sampleMarshal sorted_list_of_set]
  show ?thesis by simp
qed

section \<open>Leaving a room\<close>

lemma handleBroadcast_frame:
  assumes "hub_inv s" and "range_ok it"
  shows "\<exists>s'. handleBroadcast mar it msg s = Some s' \<and> hub_inv s' \<and>
           (\<forall>d. d \<notin> members s (RoomName msg) \<longrightarrow> heap s' d = heap s d) \<and>
           (\<forall>r. members s' r \<subseteq> members s r) \<and> clients s' \<subseteq> clients s"
proof (cases "mar msg")
  case (Inl err)
  then show ?thesis using assms(1) by (simp add: handleBroadcast_error members_def)
next
  case (Inr b)
  have "handleBroadcast mar it msg s =
          Some (routed b (RoomName msg) (members s (RoomName msg)) s)"
    using handleBroadcast_routed[of mar msg b it s] Inr assms(2)
      hub_inv_members_finite[OF assms(1)] hub_inv_members_open[OF assms(1)] by blast
  then show ?thesis using hub_inv_routed[OF assms(1), of b "RoomName msg"] by auto
qed

lemma handleBroadcast_known:
  assumes "hub_inv s" and "range_ok it" and "mar msg = Inr b"
  shows "handleBroadcast mar it msg s = Some (routed b (RoomName msg) (members s (RoomName msg)) s)"
  using handleBroadcast_routed[of mar msg b it s] assms
    hub_inv_members_finite[OF assms(1)] hub_inv_members_open[OF assms(1)] by blast


lemma mem_routed:
  "d \<in> members (routed b r (members s r) s) r \<longleftrightarrow> d \<in> members s r \<and> \<not> full (heap s d)"
  by auto

lemma message_rooms [simp]:
  "RoomName (userLeftMessage c) = room c" "RoomName (joinMessage name user) = name"
  "RoomName (chatMessage c x) = room c" "RoomName (onlineUsersMessage it name s) = name"
  "Type (onlineUsersMessage it name s) = ''online_users''"
  by (simp_all add: userLeftMessage_def joinMessage_def chatMessage_def onlineUsersMessage_def)

lemma handleUnregister_known:
  assumes "hub_inv s" and "c \<in> clients s" and "range_ok it_left" and "range_ok it_send"
    and "mar (userLeftMessage (heap s c)) = Inr b1"
    and "mar (onlineUsersMessage it_users (room (heap s c))
               (routed b1 (room (heap s c)) (members (leave c s) (room (heap s c))) (leave c s)))
         = Inr b2"
  shows "handleUnregister mar it_left it_users it_send c s =
           Some (cleanup (room (heap s c))
             (routed b2 (room (heap s c))
               (members (routed b1 (room (heap s c)) (members (leave c s) (room (heap s c)))
                          (leave c s)) (room (heap s c)))
               (routed b1 (room (heap s c)) (members (leave c s) (room (heap s c))) (leave c s))))"
proof -
  let ?r = "room (heap s c)"
  let ?s1 = "leave c s"
  let ?s2 = "routed b1 ?r (members ?s1 ?r) ?s1"
  have i1: "hub_inv ?s1" using assms(1) by (rule hub_inv_leave)
  have i2: "hub_inv ?s2" using i1 by (rule hub_inv_routed)
  have 1: "handleBroadcast mar it_left (userLeftMessage (heap s c)) ?s1 = Some ?s2"
    using handleBroadcast_known[of ?s1 it_left mar "userLeftMessage (heap s c)" b1] i1 assms(3,5)
    by simp
  have 2: "broadcastRoomUsers mar it_users it_send ?r ?s2 =
             Some (routed b2 ?r (members ?s2 ?r) ?s2)"
    unfolding broadcastRoomUsers_def
    using handleBroadcast_known[of ?s2 it_send mar
        "onlineUsersMessage it_users ?r ?s2" b2] i2 assms(4,6)
    by simp
  show ?thesis
    by (simp only: handleUnregister_leave[OF assms(2)] 1 2 option.case option.map)
qed

lemma full_deliver:
  "full (deliver b cl) \<longleftrightarrow> \<not> length (buf (send cl)) + 2 \<le> capacity (send cl)"
  by (auto simp: full_def)

lemma members_routed_self:
  "members (routed b r (members s r) s) r = {d \<in> members s r. \<not> full (heap s d)}"
  by auto

lemma rooms_leave_other:
  "r \<noteq> room (heap s c) \<Longrightarrow> rooms (leave c s) r = rooms s r"
  by (simp add: leave_def room_delete_def split: option.splits)

lemma rooms_cleanup:
  "rooms (cleanup name s) r =
     (if r = name \<and> members s name = {} then None else rooms s r)"
  by (simp add: cleanup_def)

lemma rooms_None_members: "rooms s r = None \<Longrightarrow> members s r = {}"
  by (simp add: members_def)

lemma mset_roomUsers:
  assumes "range_ok it" and "finite (members s name)"
  shows "mset (roomUsers it name s) =
           image_mset (\<lambda>c. username (heap s c)) (mset_set (members s name))"
proof (cases "rooms s name")
  case None
  then show ?thesis by (simp add: roomUsers_def members_def)
next
  case (Some roomClients)
  then have "members s name = roomClients" by (simp add: members_def)
  with assms mset_ranging[of it roomClients] Some show ?thesis
    by (simp add: roomUsers_def)
qed

lemma onlineUsersMessage_fields [simp]:
  "Username (onlineUsersMessage it name s) = []"
  "Content (onlineUsersMessage it name s) = Join (roomUsers it name s) '',''"
  by (simp_all add: onlineUsersMessage_def)

text \<open>
  C5: \<open>handleUnregister\<close> for a client that is not in \<open>clients\<close> returns the state as
  it is, so nothing is routed. For a registered client it deletes the client from
  \<open>clients\<close> and from its room's set and routes two messages to that room, the
  \<open>user_left\<close> notice and then one \<open>online_users\<close> roster that lists those who were sent
  the notice. Every other client that was in the room is accounted for: with two free
  places in its buffer it stays and gets exactly the notice and the roster appended, in
  this order; with one free place it gets the notice and is evicted when the roster
  comes; with a full buffer it is evicted at once. The leaver and every client outside
  the room keep their buffers, the other rooms keep their entries, and the room's own
  entry is deleted exactly when nobody is left in it. The encoder is taken not to fail,
  as \<open>json.Marshal\<close> does not on a struct of four strings.
\<close>

theorem unregister_effects:
  assumes "reachable mar s" and "range_ok it_left" and "range_ok it_users" and "range_ok it_send"
    and "\<forall>m. \<exists>b. mar m = Inr b"
  shows "(c \<notin> clients s \<longrightarrow> handleUnregister mar it_left it_users it_send c s = Some s) \<and>
         (c \<in> clients s \<longrightarrow>
            (\<exists>s' left roster m users.
               handleUnregister mar it_left it_users it_send c s = Some s' \<and>
               c \<notin> clients s' \<and> (\<forall>r. c \<notin> members s' r) \<and>
               clients s' =
                 clients s - {c} -
                 {d \<in> members s (room (heap s c)).
                    \<not> length (buf (send (heap s d))) + 2 \<le> capacity (send (heap s d))} \<and>
               members s' (room (heap s c)) =
                 {d \<in> members s (room (heap s c)) - {c}.
                    length (buf (send (heap s d))) + 2 \<le> capacity (send (heap s d))} \<and>
               (rooms s' (room (heap s c)) = None \<longleftrightarrow> members s' (room (heap s c)) = {}) \<and>
               (\<forall>r. r \<noteq> room (heap s c) \<longrightarrow> rooms s' r = rooms s r) \<and>
               mar (userLeftMessage (heap s c)) = Inr left \<and>
               mar m = Inr roster \<and> Type m = ''online_users'' \<and> RoomName m = room (heap s c) \<and>
               Username m = [] \<and> Content m = Join users '','' \<and>
               mset users =
                 image_mset (\<lambda>d. username (heap s d))
                   (mset_set {d \<in> members s (room (heap s c)) - {c}.
                      length (buf (send (heap s d))) < capacity (send (heap s d))}) \<and>
               (\<forall>d\<in>members s (room (heap s c)) - {c}.
                  if length (buf (send (heap s d))) + 2 \<le> capacity (send (heap s d))
                  then buf (send (heap s' d)) = buf (send (heap s d)) @ [left, roster] \<and>
                       \<not> is_closed (send (heap s' d))
                  else if length (buf (send (heap s d))) < capacity (send (heap s d))
                  then buf (send (heap s' d)) = buf (send (heap s d)) @ [left] \<and>
                       is_closed (send (heap s' d))
                  else buf (send (heap s' d)) = buf (send (heap s d)) \<and>
                       is_closed (send (heap s' d))) \<and>
               (\<forall>d. d \<notin> members s (room (heap s c)) - {c} \<longrightarrow> heap s' d = heap s d)))"
proof (intro conjI impI)
  assume "c \<notin> clients s"
  then show "handleUnregister mar it_left it_users it_send c s = Some s"
    by (simp add: handleUnregister_def)
next
  assume known: "c \<in> clients s"
  have inv: "hub_inv s" using assms(1) by (rule reachable_hub_inv)
  define r where "r = room (heap s c)"
  define M where "M = members s r - {c}"
  define s1 where "s1 = leave c s"
  obtain b1 where b1: "mar (userLeftMessage (heap s c)) = Inr b1" using assms(5) by blast
  define s2 where "s2 = routed b1 r (members s1 r) s1"
  define m where "m = onlineUsersMessage it_users r s2"
  obtain b2 where b2: "mar m = Inr b2" using assms(5) by blast
  define s3 where "s3 = routed b2 r (members s2 r) s2"
  define s' where "s' = cleanup r s3"
  define two where "two = (\<lambda>d. length (buf (send (heap s d))) + 2 \<le> capacity (send (heap s d)))"
  have two_full: "two d \<Longrightarrow> \<not> full (heap s d)" for d
    by (simp add: two_def full_def)
  have run: "handleUnregister mar it_left it_users it_send c s = Some s'"
    using handleUnregister_known[of s c it_left it_send mar b1 it_users b2]
      inv known assms(2,4) b1 b2
    unfolding s'_def s3_def s2_def s1_def r_def m_def by blast
  have m1: "members s1 r = M" by (simp add: s1_def r_def M_def)
  have h1: "heap s1 = heap s" by (simp add: s1_def)
  have k1: "clients s1 = clients s - {c}" by (simp add: s1_def)
  have "members s2 r = {d \<in> members s1 r. \<not> full (heap s1 d)}"
    unfolding s2_def by (rule members_routed_self)
  then have m2: "members s2 r = {d \<in> M. \<not> full (heap s d)}"
    unfolding m1 h1 .
  have "heap s2 d = (if d \<in> members s1 r then deliver b1 (heap s1 d) else heap s1 d)" for d
    unfolding s2_def by (rule routed_simps(1))
  then have h2: "heap s2 d = (if d \<in> M then deliver b1 (heap s d) else heap s d)" for d
    unfolding m1 h1 .
  have "clients s2 = clients s1 - evicted s1 (members s1 r)"
    unfolding s2_def by (rule routed_simps(2))
  then have k2: "clients s2 = clients s - {c} - {d \<in> M. full (heap s d)}"
    unfolding evicted_def m1 k1 h1 .
  have f2: "full (heap s2 d) \<longleftrightarrow> \<not> two d" if "d \<in> M" for d
    using that by (simp add: h2 full_deliver two_def)
  have m3: "members s3 r = {d \<in> members s2 r. \<not> full (heap s2 d)}"
    unfolding s3_def by (rule members_routed_self)
  have m3': "members s3 r = {d \<in> M. two d}"
    unfolding m3 m2 using f2 two_full by blast
  have ms: "members s' r = {d \<in> M. two d}"
    unfolding s'_def cleanup_simps by (rule m3')
  have h3: "heap s' d = (if d \<in> members s2 r then deliver b2 (heap s2 d) else heap s2 d)" for d
    unfolding s'_def s3_def cleanup_simps by (rule routed_simps(1))
  have "clients s' = clients s2 - evicted s2 (members s2 r)"
    unfolding s'_def s3_def cleanup_simps by (rule routed_simps(2))
  then have k3: "clients s' = clients s2 - {d \<in> members s2 r. full (heap s2 d)}"
    unfolding evicted_def .
  have gone: "c \<notin> clients s'" unfolding k3 k2 by blast
  have cr: "room (heap s c) = r" by (simp add: r_def)
  have out: "c \<notin> members s' r'" for r'
  proof (cases "r' = r")
    case True
    have "c \<notin> members s' r" unfolding ms by (simp add: M_def)
    with True show ?thesis by simp
  next
    case False
    have "members s' r' \<subseteq> members s r'"
      using False by (simp add: s'_def s3_def s2_def s1_def r_def)
    moreover have "c \<notin> members s r'" using hub_invD(6)[OF inv, of c r'] False cr by blast
    ultimately show ?thesis by blast
  qed
  have cl: "clients s' = clients s - {c} - {d \<in> members s r. \<not> two d}"
  proof -
    have "{d \<in> members s2 r. full (heap s2 d)} = {d \<in> M. \<not> full (heap s d) \<and> \<not> two d}"
      unfolding m2 using f2 by blast
    then have "clients s' = clients s - {c} - {d \<in> M. full (heap s d)} -
                 {d \<in> M. \<not> full (heap s d) \<and> \<not> two d}"
      unfolding k3 k2 by simp
    also have "\<dots> = clients s - {c} - {d \<in> M. \<not> two d}"
      using two_full by blast
    also have "\<dots> = clients s - {c} - {d \<in> members s r. \<not> two d}"
      unfolding M_def by blast
    finally show ?thesis .
  qed
  have none: "rooms s' r = None \<longleftrightarrow> members s' r = {}"
    using rooms_None_members[of s3 r]
    by (auto simp add: s'_def rooms_cleanup simp del: members_routed)
  have other: "rooms s' r' = rooms s r'" if "r' \<noteq> r" for r'
    using that by (simp add: s'_def s3_def s2_def s1_def r_def rooms_cleanup rooms_routed
        rooms_leave_other)
  have fin2: "finite (members s2 r)"
    using hub_inv_members_finite[OF inv, of r] unfolding m2 M_def by simp
  have users: "mset (roomUsers it_users r s2) =
                 image_mset (\<lambda>d. username (heap s d))
                   (mset_set {d \<in> M. length (buf (send (heap s d))) < capacity (send (heap s d))})"
  proof -
    have "mset (roomUsers it_users r s2) =
            image_mset (\<lambda>d. username (heap s2 d)) (mset_set (members s2 r))"
      using assms(3) fin2 by (rule mset_roomUsers)
    also have "(\<lambda>d. username (heap s2 d)) = (\<lambda>d. username (heap s d))"
      by (auto simp: h2 fun_eq_iff)
    also have "members s2 r =
                 {d \<in> M. length (buf (send (heap s d))) < capacity (send (heap s d))}"
      unfolding m2 by (simp add: full_def)
    finally show ?thesis .
  qed
  have bufs: "if two d
                  then buf (send (heap s' d)) = buf (send (heap s d)) @ [b1, b2] \<and>
                       \<not> is_closed (send (heap s' d))
                  else if length (buf (send (heap s d))) < capacity (send (heap s d))
                  then buf (send (heap s' d)) = buf (send (heap s d)) @ [b1] \<and>
                       is_closed (send (heap s' d))
                  else buf (send (heap s' d)) = buf (send (heap s d)) \<and>
                       is_closed (send (heap s' d))"
    if d: "d \<in> M" for d
  proof -
    have op: "\<not> is_closed (send (heap s d))"
      using hub_inv_members_open[OF inv, of d r] d unfolding M_def by blast
    have in2: "d \<in> members s2 r \<longleftrightarrow> \<not> full (heap s d)" using d unfolding m2 by blast
    have e2: "heap s2 d = deliver b1 (heap s d)" using d by (simp add: h2)
    show ?thesis
    proof (cases "full (heap s d)")
      case True
      then have "heap s' d = deliver b1 (heap s d)" unfolding h3 in2 e2 by simp
      with True op show ?thesis by (auto simp: two_def full_def)
    next
      case False
      then have e3: "heap s' d = deliver b2 (deliver b1 (heap s d))" unfolding h3 in2 e2 by simp
      show ?thesis
      proof (cases "two d")
        case True
        then show ?thesis unfolding e3 using op by (simp add: two_def full_def)
      next
        case nt: False
        then show ?thesis unfolding e3 using op False by (simp add: two_def full_def)
      qed
    qed
  qed
  have rest: "heap s' d = heap s d" if "d \<notin> M" for d
  proof -
    have "d \<notin> members s2 r" using that unfolding m2 by blast
    then show ?thesis using that by (simp add: h3 h2)
  qed
  have ty: "Type m = ''online_users''" "RoomName m = r" "Username m = []"
    "Content m = Join (roomUsers it_users r s2) '',''" by (simp_all add: m_def)
  show "\<exists>s' left roster m users.
               handleUnregister mar it_left it_users it_send c s = Some s' \<and>
               c \<notin> clients s' \<and> (\<forall>r. c \<notin> members s' r) \<and>
               clients s' =
                 clients s - {c} -
                 {d \<in> members s (room (heap s c)).
                    \<not> length (buf (send (heap s d))) + 2 \<le> capacity (send (heap s d))} \<and>
               members s' (room (heap s c)) =
                 {d \<in> members s (room (heap s c)) - {c}.
                    length (buf (send (heap s d))) + 2 \<le> capacity (send (heap s d))} \<and>
               (rooms s' (room (heap s c)) = None \<longleftrightarrow> members s' (room (heap s c)) = {}) \<and>
               (\<forall>r. r \<noteq> room (heap s c) \<longrightarrow> rooms s' r = rooms s r) \<and>
               mar (userLeftMessage (heap s c)) = Inr left \<and>
               mar m = Inr roster \<and> Type m = ''online_users'' \<and> RoomName m = room (heap s c) \<and>
               Username m = [] \<and> Content m = Join users '','' \<and>
               mset users =
                 image_mset (\<lambda>d. username (heap s d))
                   (mset_set {d \<in> members s (room (heap s c)) - {c}.
                      length (buf (send (heap s d))) < capacity (send (heap s d))}) \<and>
               (\<forall>d\<in>members s (room (heap s c)) - {c}.
                  if length (buf (send (heap s d))) + 2 \<le> capacity (send (heap s d))
                  then buf (send (heap s' d)) = buf (send (heap s d)) @ [left, roster] \<and>
                       \<not> is_closed (send (heap s' d))
                  else if length (buf (send (heap s d))) < capacity (send (heap s d))
                  then buf (send (heap s' d)) = buf (send (heap s d)) @ [left] \<and>
                       is_closed (send (heap s' d))
                  else buf (send (heap s' d)) = buf (send (heap s d)) \<and>
                       is_closed (send (heap s' d))) \<and>
               (\<forall>d. d \<notin> members s (room (heap s c)) - {c} \<longrightarrow> heap s' d = heap s d)"
    unfolding cr
    apply (rule exI[of _ s'], rule exI[of _ b1], rule exI[of _ b2], rule exI[of _ m],
        rule exI[of _ "roomUsers it_users r s2"])
    apply (intro conjI)
    subgoal by (rule run)
    subgoal by (rule gone)
    subgoal using out by blast
    subgoal by (rule cl[unfolded two_def])
    subgoal by (rule ms[unfolded two_def M_def])
    subgoal by (rule none)
    subgoal using other by blast
    subgoal by (rule b1)
    subgoal by (rule b2)
    subgoal by (rule ty)
    subgoal by (rule ty)
    subgoal by (rule ty)
    subgoal by (rule ty)
    subgoal by (rule users[unfolded M_def])
    subgoal using bufs[unfolded two_def M_def] by blast
    subgoal using rest[unfolded M_def] by blast
    done
qed

lemma unregister_bob:
  "handleUnregister sampleMarshal sorted_list_of_set sorted_list_of_set sorted_list_of_set 1
     aliceBob = Some aliceAlone"
  by (simp add: handleUnregister_def run_defs userLeftMessage_def room_delete_def
      room_len_zero_def aliceBob_def aliceAlone_def insert_Diff_if fun_upd_twist)

lemma sampleMarshal_total: "\<forall>m. \<exists>b. sampleMarshal m = Inr b"
  by (simp add: sampleMarshal_def)

theorem unregister_effects_witness:
  "handleUnregister sampleMarshal sorted_list_of_set sorted_list_of_set sorted_list_of_set 7
     aliceBob = Some aliceBob \<and>
   handleUnregister sampleMarshal sorted_list_of_set sorted_list_of_set sorted_list_of_set 1
     aliceBob = Some aliceAlone \<and>
   1 \<notin> clients aliceAlone \<and> 1 \<notin> members aliceAlone ''lobby'' \<and>
   0 \<in> members aliceAlone ''lobby'' \<and>
   buf (send (heap aliceAlone 0)) =
     buf (send (heap aliceBob 0)) @
       [''user_left|bob left the room|lobby|bob'', ''online_users|alice|lobby|'']"
proof -
  note t = unregister_effects [OF reachable_aliceBob range_ok_sorted range_ok_sorted
      range_ok_sorted sampleMarshal_total]
  have h7: "7 \<notin> clients aliceBob" and h1: "1 \<in> clients aliceBob"
    by (simp_all add: aliceBob_def)
  have a: "handleUnregister sampleMarshal sorted_list_of_set sorted_list_of_set
             sorted_list_of_set 7 aliceBob = Some aliceBob"
    by (rule t[of 7, THEN conjunct1, rule_format, OF h7])
  obtain s' where "handleUnregister sampleMarshal sorted_list_of_set sorted_list_of_set
           sorted_list_of_set 1 aliceBob = Some s'" "1 \<notin> clients s'" "\<forall>r. 1 \<notin> members s' r"
    using t[of 1, THEN conjunct2, rule_format, OF h1]
    by (elim exE conjE) (rule that, assumption+)
  then have b: "1 \<notin> clients aliceAlone" "1 \<notin> members aliceAlone ''lobby''"
    by (auto simp only: unregister_bob option.inject)
  have "0 \<in> members aliceAlone ''lobby''"
    "buf (send (heap aliceAlone 0)) =
     buf (send (heap aliceBob 0)) @
       [''user_left|bob left the room|lobby|bob'', ''online_users|alice|lobby|'']"
    by (simp_all add: members_def aliceAlone_def aliceBob_def)
  with a b unregister_bob show ?thesis by simp
qed

text \<open>
  C10: \<open>handleUnregister\<close> deletes the client from both maps before it routes the leave
  notice and the roster, so the client that leaves is not among the receivers: its
  struct, the send channel with its buffer included, is the same after the call as
  before, and the client is in no set any more.
\<close>

theorem leaver_receives_nothing:
  assumes "reachable mar s" and "range_ok it_left" and "range_ok it_send"
  shows "\<exists>s'. handleUnregister mar it_left it_users it_send c s = Some s' \<and>
           heap s' c = heap s c \<and> c \<notin> clients s' \<and> (\<forall>r. c \<notin> members s' r)"
proof (cases "c \<in> clients s")
  case False
  have inv: "hub_inv s" using assms(1) by (rule reachable_hub_inv)
  have "c \<notin> members s r" for r using hub_invD(5)[OF inv, of c r] False by blast
  with False show ?thesis by (simp add: handleUnregister_def)
next
  case True
  have inv: "hub_inv s" using assms(1) by (rule reachable_hub_inv)
  let ?r = "room (heap s c)"
  let ?s1 = "leave c s"
  have out1: "c \<notin> members ?s1 r" for r
    using hub_invD(6)[OF inv, of c r] by auto
  obtain s2 where s2: "handleBroadcast mar it_left (userLeftMessage (heap s c)) ?s1 = Some s2"
    and i2: "hub_inv s2"
    and h2: "\<forall>d. d \<notin> members ?s1 (RoomName (userLeftMessage (heap s c))) \<longrightarrow>
                heap s2 d = heap ?s1 d"
    and m2: "\<forall>r. members s2 r \<subseteq> members ?s1 r" and c2: "clients s2 \<subseteq> clients ?s1"
    using handleBroadcast_frame[OF hub_inv_leave[OF inv] assms(2),
        of mar "userLeftMessage (heap s c)" c] by blast
  obtain s3 where s3: "broadcastRoomUsers mar it_users it_send ?r s2 = Some s3"
    and h3: "\<forall>d. d \<notin> members s2 (RoomName (onlineUsersMessage it_users ?r s2)) \<longrightarrow>
                heap s3 d = heap s2 d"
    and m3: "\<forall>r. members s3 r \<subseteq> members s2 r" and c3: "clients s3 \<subseteq> clients s2"
    unfolding broadcastRoomUsers_def
    using handleBroadcast_frame[OF i2 assms(3), of mar "onlineUsersMessage it_users ?r s2"]
    by blast
  have run: "handleUnregister mar it_left it_users it_send c s = Some (cleanup ?r s3)"
    by (simp only: handleUnregister_leave[OF True] s2 s3 option.case option.map)
  have out2: "c \<notin> members s2 r" for r using m2 out1[of r] by blast
  have "heap s2 c = heap s c" using h2 out1 by simp
  moreover have "heap s3 c = heap s2 c" using h3 out2 by simp
  moreover have "c \<notin> members s3 r" for r using m3 out2[of r] by blast
  moreover have "c \<notin> clients s3" using c3 c2 by auto
  ultimately show ?thesis using run by simp
qed

theorem leaver_receives_nothing_witness:
  "\<exists>s'. handleUnregister sampleMarshal sorted_list_of_set sorted_list_of_set sorted_list_of_set 1
          aliceBob = Some s' \<and>
        1 \<in> clients aliceBob \<and> heap s' 1 = heap aliceBob 1 \<and> 1 \<notin> clients s'"
proof -
  have "1 \<in> clients aliceBob" by (simp add: aliceBob_def)
  with leaver_receives_nothing [OF reachable_aliceBob range_ok_sorted range_ok_sorted,
      of sorted_list_of_set 1]
  show ?thesis by blast
qed

lemma aliceIn_queue: "aliceIn = aliceQueue [''online_users|alice|lobby|'']"
  by (simp add: aliceIn_def aliceQueue_def)

lemma route_to_alice:
  assumes "length q < 256" and "RoomName msg = ''lobby''" and "sampleMarshal msg = Inr b"
  shows "handleBroadcast sampleMarshal sorted_list_of_set msg (aliceQueue q) =
           Some (aliceQueue (q @ [b]))"
  using assms by (simp add: handleBroadcast_def select_send_def aliceQueue_def)

lemma join_alice:
  "handleBroadcast sampleMarshal sorted_list_of_set (joinMessage ''lobby'' ''alice'') aliceIn =
     Some aliceJoined"
  unfolding aliceIn_queue aliceJoined_def
  using route_to_alice[of "[''online_users|alice|lobby|'']" "joinMessage ''lobby'' ''alice''"
      "''user_joined|alice joined the room|lobby|alice''"]
  by (simp add: joinMessage_def sampleMarshal_def)

lemma chat_alice:
  assumes "length q < 256"
  shows "handleBroadcast sampleMarshal sorted_list_of_set
           (chatMessage (heap (aliceQueue q) 0) ''hi'') (aliceQueue q) =
         Some (aliceQueue (q @ [''chat|hi|lobby|alice'']))"
  by (rule route_to_alice[OF assms])
     (simp_all add: chatMessage_def sampleMarshal_def aliceQueue_def)

lemma reachable_aliceJoined: "reachable sampleMarshal aliceJoined"
proof -
  have "room (heap aliceIn 0) = ''lobby''" "username (heap aliceIn 0) = ''alice''"
    "0 \<in> allocd aliceIn"
    by (simp_all add: aliceIn_def)
  with reachable.join[OF reachable_aliceIn _ range_ok_sorted, of 0 aliceJoined] join_alice
  show ?thesis by simp
qed

lemma reachable_chats:
  "n \<le> 254 \<Longrightarrow>
   reachable sampleMarshal
     (aliceQueue (''online_users|alice|lobby|'' # ''user_joined|alice joined the room|lobby|alice'' #
                  replicate n ''chat|hi|lobby|alice''))"
proof (induction n)
  case 0
  show ?case using reachable_aliceJoined by (simp add: aliceJoined_def)
next
  case (Suc n)
  let ?q = "''online_users|alice|lobby|'' # ''user_joined|alice joined the room|lobby|alice'' #
                  replicate n ''chat|hi|lobby|alice''"
  from Suc have r: "reachable sampleMarshal (aliceQueue ?q)" and l: "length ?q < 256" by simp_all
  have "reachable sampleMarshal (aliceQueue (?q @ [''chat|hi|lobby|alice'']))"
    by (rule reachable.chat[OF r _ range_ok_sorted chat_alice[OF l]])
       (simp add: aliceQueue_def)
  then show ?case by (simp add: replicate_append_same)
qed

lemma reachable_aliceStalled: "reachable sampleMarshal aliceStalled"
  unfolding aliceStalled_def by (rule reachable_chats) simp

lemma evict_alice:
  "handleBroadcast sampleMarshal sorted_list_of_set
     (chatMessage (heap aliceStalled 0) ''hi'') aliceStalled = Some lobbyEmptied"
  by (simp add: handleBroadcast_def select_send_def close_chan_def room_delete_def
      chatMessage_def sampleMarshal_def aliceStalled_def aliceQueue_def lobbyEmptied_def)


text \<open>
  C1: a room has an entry in \<open>rooms\<close> exactly when its set is not empty. The code breaks
  this: \<open>handleUnregister\<close> deletes the entry of a room that has become empty, the
  eviction in \<open>handleBroadcast\<close> does not. The state \<open>aliceStalled\<close> is reachable
  (\<open>alice\<close> registers, her join message and 254 chat messages are routed, her write pump
  has not yet taken anything from the channel); routing one more message evicts her, the
  only member, and the lobby keeps an entry whose set is empty.
\<close>

theorem eviction_leaves_empty_room:
  "reachable sampleMarshal aliceStalled \<and> members aliceStalled ''lobby'' = {0} \<and>
   handleBroadcast sampleMarshal sorted_list_of_set
     (chatMessage (heap aliceStalled 0) ''hi'') aliceStalled = Some lobbyEmptied \<and>
   reachable sampleMarshal lobbyEmptied \<and> rooms lobbyEmptied ''lobby'' = Some {}"
proof -
  have a: "0 \<in> allocd aliceStalled" "members aliceStalled ''lobby'' = {0}"
    by (simp_all add: aliceStalled_def aliceQueue_def members_def)
  have "reachable sampleMarshal lobbyEmptied"
    by (rule reachable.chat[OF reachable_aliceStalled a(1) range_ok_sorted evict_alice])
  moreover have "rooms lobbyEmptied ''lobby'' = Some {}" by (simp add: lobbyEmptied_def)
  ultimately show ?thesis using reachable_aliceStalled evict_alice a(2) by simp
qed

section \<open>Joining a room\<close>













end
